theory Spec2Isabelle
  imports Main
begin

section \<open>Python strings\<close>

text \<open>
  A Python \<^verbatim>\<open>str\<close> is a sequence of Unicode code points, so a string is a list of
  natural numbers and its length counts code points.  ASCII literals are written with
  \<open>ustr\<close>.
\<close>

type_synonym ustring = "nat list"

definition ustr :: "string \<Rightarrow> ustring" where
  "ustr cs = map of_char cs"

text \<open>
  \<^verbatim>\<open>str.isspace\<close> for one code point: the 29 code points for which CPython's
  \<^verbatim>\<open>Py_UNICODE_ISSPACE\<close> holds.  The same predicate decides \<^verbatim>\<open>\s\<close> in a
  \<^verbatim>\<open>str\<close> pattern and what \<^verbatim>\<open>str.strip()\<close> removes.
\<close>

definition is_space :: "nat \<Rightarrow> bool" where
  "is_space x =
     (if x < 0x80 then (0x09 \<le> x \<and> x \<le> 0x0D) \<or> (0x1C \<le> x \<and> x \<le> 0x20)
      else x = 0x85 \<or> x = 0xA0 \<or> x = 0x1680 \<or> (0x2000 \<le> x \<and> x \<le> 0x200A)
        \<or> x = 0x2028 \<or> x = 0x2029 \<or> x = 0x202F \<or> x = 0x205F \<or> x = 0x3000)"

text \<open>
  The code points of the decimal digit zero of every script (Unicode 14, general
  category Nd); each is followed by the digits one to nine of its script.  The
  mathematical digits from \<open>0x1D7CE\<close> are five such runs.
\<close>

definition decimal_zeros :: "nat list" where
  "decimal_zeros =
     [0x30, 0x660, 0x6F0, 0x7C0, 0x966, 0x9E6, 0xA66, 0xAE6, 0xB66, 0xBE6, 0xC66, 0xCE6,
      0xD66, 0xDE6, 0xE50, 0xED0, 0xF20, 0x1040, 0x1090, 0x17E0, 0x1810, 0x1946, 0x19D0,
      0x1A80, 0x1A90, 0x1B50, 0x1BB0, 0x1C40, 0x1C50, 0xA620, 0xA8D0, 0xA900, 0xA9D0,
      0xA9F0, 0xAA50, 0xABF0, 0xFF10, 0x104A0, 0x10D30, 0x11066, 0x110F0, 0x11136,
      0x111D0, 0x112F0, 0x11450, 0x114D0, 0x11650, 0x116C0, 0x11730, 0x118E0, 0x11950,
      0x11C50, 0x11D50, 0x11DA0, 0x16A60, 0x16AC0, 0x16B50,
      0x1D7CE, 0x1D7D8, 0x1D7E2, 0x1D7EC, 0x1D7F6,
      0x1E140, 0x1E2F0, 0x1E950, 0x1FBF0]"

text \<open>\<^verbatim>\<open>str.isdecimal\<close> for one code point; it decides \<^verbatim>\<open>\d\<close> in a \<^verbatim>\<open>str\<close> pattern.\<close>

definition is_decimal :: "nat \<Rightarrow> bool" where
  "is_decimal x =
     (if x < 0x80 then 0x30 \<le> x \<and> x \<le> 0x39
      else list_ex (\<lambda>z. z \<le> x \<and> x \<le> z + 9) decimal_zeros)"

text \<open>\<^verbatim>\<open>s.strip()\<close>: leading and trailing white space removed.\<close>

definition lstrip :: "ustring \<Rightarrow> ustring" where
  "lstrip s = dropWhile is_space s"

definition rstrip :: "ustring \<Rightarrow> ustring" where
  "rstrip s = rev (dropWhile is_space (rev s))"

definition strip :: "ustring \<Rightarrow> ustring" where
  "strip s = rstrip (lstrip s)"

text \<open>\<^verbatim>\<open>s[b:e]\<close> for \<open>0 \<le> b \<le> e\<close>.\<close>

definition slice :: "ustring \<Rightarrow> nat \<Rightarrow> nat \<Rightarrow> ustring" where
  "slice s b e = take (e - b) (drop b s)"

section \<open>The regular expressions of the module\<close>

text \<open>
  The patterns of the module use literals, character classes with the categories
  \<^verbatim>\<open>\d\<close> and \<^verbatim>\<open>\s\<close>, concatenation, alternation, the greedy quantifiers
  \<^verbatim>\<open>?\<close>, \<^verbatim>\<open>*\<close>, \<^verbatim>\<open>+\<close> and \<^verbatim>\<open>{m,n}\<close>, and groups.  Every
  \<^verbatim>\<open>*\<close>, \<^verbatim>\<open>+\<close> and \<^verbatim>\<open>{m,n}\<close> is applied to a single character or class.
\<close>

datatype item = Ch nat | Rng nat nat | CatDigit | CatSpace

datatype atom = Lit nat | In "item list" | NotIn "item list"

datatype regex =
    Eps
  | Atom atom
  | Seq regex regex
  | Alt regex regex
  | Opt regex
  | Rep nat "nat option" atom
  | Group nat regex

text \<open>
  With \<^verbatim>\<open>re.IGNORECASE\<close> a character of the text is lowered before it is compared.
  For the ASCII letters the engine accepts, besides both cases of the letter, U+0130 and
  U+0131 for \<open>i\<close>, U+017F for \<open>s\<close> and U+212A for \<open>k\<close>; \<open>fold_ascii\<close> sends each
  of these to its lower-case ASCII letter and leaves every other code point alone.
\<close>

definition is_lower_ascii :: "nat \<Rightarrow> bool" where
  "is_lower_ascii x = (0x61 \<le> x \<and> x \<le> 0x7A)"

definition fold_ascii :: "nat \<Rightarrow> nat" where
  "fold_ascii x =
     (if x < 0x80 then (if 0x41 \<le> x \<and> x \<le> 0x5A then x + 0x20 else x)
      else if x = 0x130 \<or> x = 0x131 then 0x69
      else if x = 0x17F then 0x73
      else if x = 0x212A then 0x6B
      else x)"

text \<open>
  Membership of a character in one item of a class.  Under \<^verbatim>\<open>re.IGNORECASE\<close> a
  literal or a range over ASCII also accepts every character with the same fold as one
  of its members.
\<close>

fun item_match :: "bool \<Rightarrow> item \<Rightarrow> nat \<Rightarrow> bool" where
  "item_match ic (Ch c) x = (if ic then fold_ascii x = fold_ascii c else x = c)"
| "item_match ic (Rng lo hi) x =
     ((lo \<le> x \<and> x \<le> hi) \<or>
      (ic \<and> is_lower_ascii (fold_ascii x) \<and>
        ((lo \<le> fold_ascii x \<and> fold_ascii x \<le> hi) \<or>
         (lo \<le> fold_ascii x - 0x20 \<and> fold_ascii x - 0x20 \<le> hi))))"
| "item_match ic CatDigit x = is_decimal x"
| "item_match ic CatSpace x = is_space x"

fun atom_match :: "bool \<Rightarrow> atom \<Rightarrow> nat \<Rightarrow> bool" where
  "atom_match ic (Lit c) x = (if ic then fold_ascii x = fold_ascii c else x = c)"
| "atom_match ic (In its) x = list_ex (\<lambda>it. item_match ic it x) its"
| "atom_match ic (NotIn its) x = (\<not> list_ex (\<lambda>it. item_match ic it x) its)"

section \<open>Matching\<close>

text \<open>
  The matcher is the backtracking search of Python's \<^verbatim>\<open>re\<close>: it works through a
  list of what is still to be matched (the continuation) at a position of the text, takes
  the first alternative first and the longest repetition first, and on failure goes back
  to the latest choice.  It returns the end position and the group marks of the first
  complete match found, or \<open>None\<close>.  A group's mark is the pair of positions
  where the group was entered and left.
\<close>

datatype kont = R regex | Close nat nat

type_synonym marks = "nat \<rightharpoonup> nat \<times> nat"

fun rsize :: "regex \<Rightarrow> nat" where
  "rsize Eps = 1"
| "rsize (Atom a) = 1"
| "rsize (Seq p q) = rsize p + rsize q + 1"
| "rsize (Alt p q) = rsize p + rsize q + 1"
| "rsize (Opt p) = rsize p + 1"
| "rsize (Rep lo hi a) = 1"
| "rsize (Group n p) = rsize p + 2"

fun ksize :: "kont \<Rightarrow> nat" where
  "ksize (R r) = rsize r"
| "ksize (Close n b) = 1"

function (sequential) sre_match ::
  "bool \<Rightarrow> kont list \<Rightarrow> ustring \<Rightarrow> nat \<Rightarrow> marks \<Rightarrow> (nat \<times> marks) option" where
  "sre_match ic [] s i c = Some (i, c)"
| "sre_match ic (Close n b # k) s i c = sre_match ic k s i (c(n \<mapsto> (b, i)))"
| "sre_match ic (R Eps # k) s i c = sre_match ic k s i c"
| "sre_match ic (R (Atom a) # k) [] i c = None"
| "sre_match ic (R (Atom a) # k) (x # xs) i c =
     (if atom_match ic a x then sre_match ic k xs (Suc i) c else None)"
| "sre_match ic (R (Seq p q) # k) s i c = sre_match ic (R p # R q # k) s i c"
| "sre_match ic (R (Alt p q) # k) s i c =
     (case sre_match ic (R p # k) s i c of
        Some r \<Rightarrow> Some r
      | None \<Rightarrow> sre_match ic (R q # k) s i c)"
| "sre_match ic (R (Opt p) # k) s i c =
     (case sre_match ic (R p # k) s i c of
        Some r \<Rightarrow> Some r
      | None \<Rightarrow> sre_match ic k s i c)"
| "sre_match ic (R (Rep lo hi a) # k) [] i c =
     (if lo = 0 then sre_match ic k [] i c else None)"
| "sre_match ic (R (Rep lo hi a) # k) (x # xs) i c =
     (if hi \<noteq> Some 0 \<and> atom_match ic a x then
        (case sre_match ic (R (Rep (lo - 1) (map_option (\<lambda>h. h - 1) hi) a) # k) xs (Suc i) c of
           Some r \<Rightarrow> Some r
         | None \<Rightarrow> if lo = 0 then sre_match ic k (x # xs) i c else None)
      else if lo = 0 then sre_match ic k (x # xs) i c else None)"
| "sre_match ic (R (Group n p) # k) s i c = sre_match ic (R p # Close n i # k) s i c"
  by pat_completeness auto
termination
  by (relation "measures [\<lambda>(ic, k, s, i, c). sum_list (map ksize k),
                          \<lambda>(ic, k, s, i, c). length s]") auto

text \<open>
  A match object: the pattern, the text, the span of the whole match and the marks of
  the groups.
\<close>

record rmatch =
  m_re :: regex
  m_string :: ustring
  m_span :: "nat \<times> nat"
  m_marks :: marks

text \<open>
  \<^verbatim>\<open>re.search\<close> tries every start position from the left, the end of the text
  included, and returns the match at the first position where the pattern matches.
\<close>

fun search_from :: "bool \<Rightarrow> regex \<Rightarrow> ustring \<Rightarrow> ustring \<Rightarrow> nat \<Rightarrow> rmatch option" where
  "search_from ic p text [] i =
     (case sre_match ic [R p] [] i Map.empty of
        Some (e, c) \<Rightarrow> Some \<lparr>m_re = p, m_string = text, m_span = (i, e), m_marks = c\<rparr>
      | None \<Rightarrow> None)"
| "search_from ic p text (x # xs) i =
     (case sre_match ic [R p] (x # xs) i Map.empty of
        Some (e, c) \<Rightarrow> Some \<lparr>m_re = p, m_string = text, m_span = (i, e), m_marks = c\<rparr>
      | None \<Rightarrow> search_from ic p text xs (Suc i))"

definition re_search :: "bool \<Rightarrow> regex \<Rightarrow> ustring \<Rightarrow> rmatch option" where
  "re_search ic p text = search_from ic p text text 0"

text \<open>The number of groups of a pattern.\<close>

fun groups :: "regex \<Rightarrow> nat" where
  "groups Eps = 0"
| "groups (Atom a) = 0"
| "groups (Seq p q) = max (groups p) (groups q)"
| "groups (Alt p q) = max (groups p) (groups q)"
| "groups (Opt p) = groups p"
| "groups (Rep lo hi a) = 0"
| "groups (Group n p) = max n (groups p)"

datatype py_error = AttributeError | IndexError

text \<open>
  \<^verbatim>\<open>m.group(n)\<close> raises IndexError when the pattern has no group \<open>n\<close>, and is
  \<^verbatim>\<open>None\<close> when the group did not take part in the match.
\<close>

definition match_group :: "rmatch \<Rightarrow> nat \<Rightarrow> py_error + ustring option" where
  "match_group m n =
     (if groups (m_re m) < n then Inl IndexError
      else if n = 0 then Inr (Some (slice (m_string m) (fst (m_span m)) (snd (m_span m))))
      else case m_marks m n of
             None \<Rightarrow> Inr None
           | Some (b, e) \<Rightarrow> Inr (Some (slice (m_string m) b e)))"

text \<open>\<^verbatim>\<open>m.group(n).strip()\<close>: \<^verbatim>\<open>None\<close> has no \<^verbatim>\<open>strip\<close>.\<close>

definition group_strip :: "rmatch \<Rightarrow> nat \<Rightarrow> py_error + ustring" where
  "group_strip m n =
     (case match_group m n of
        Inl err \<Rightarrow> Inl err
      | Inr None \<Rightarrow> Inl AttributeError
      | Inr (Some g) \<Rightarrow> Inr (strip g))"

section \<open>The patterns\<close>

text \<open>A sequence of patterns, and the literal characters of an ASCII word in sequence.\<close>

fun seqs :: "regex list \<Rightarrow> regex" where
  "seqs [] = Eps"
| "seqs [r] = r"
| "seqs (r # rs) = Seq r (seqs rs)"

definition lits :: "string \<Rightarrow> regex" where
  "lits cs = seqs (map (\<lambda>ch. Atom (Lit (of_char ch))) cs)"


abbreviation star :: "atom \<Rightarrow> regex" where
  "star a \<equiv> Rep 0 None a"

abbreviation plus1 :: "atom \<Rightarrow> regex" where
  "plus1 a \<equiv> Rep 1 None a"

abbreviation digit :: atom where
  "digit \<equiv> In [CatDigit]"

abbreviation space :: atom where
  "space \<equiv> In [CatSpace]"

text \<open>\<^verbatim>\<open>[:\s]\<close>\<close>

definition colon_space :: atom where
  "colon_space = In [Ch (of_char CHR '':''), CatSpace]"

text \<open>\<^verbatim>\<open>([\d,]+(?:\.\d+)?)\<close>\<close>

definition number_group :: regex where
  "number_group =
     Group 1 (Seq (plus1 (In [CatDigit, Ch (of_char CHR '','')]))
                  (Opt (Seq (Atom (Lit (of_char CHR ''.''))) (plus1 digit))))"

text \<open>\<^verbatim>\<open>(\d{1,2}[/\-]\d{1,2}[/\-]\d{2,4})\<close>\<close>

definition date_group :: regex where
  "date_group =
     Group 1 (seqs [Rep 1 (Some 2) digit,
                    Atom (In [Ch (of_char CHR ''/''), Ch (of_char CHR ''-'')]),
                    Rep 1 (Some 2) digit,
                    Atom (In [Ch (of_char CHR ''/''), Ch (of_char CHR ''-'')]),
                    Rep 2 (Some 4) digit])"

text \<open>\<^verbatim>\<open>([A-Za-z\s]{2,50})\<close>\<close>

definition name_group :: regex where
  "name_group =
     Group 1 (Rep 2 (Some 50)
       (In [Rng (of_char CHR ''A'') (of_char CHR ''Z''),
            Rng (of_char CHR ''a'') (of_char CHR ''z''), CatSpace]))"

text \<open>\<^verbatim>\<open>treatment\s*cost[:\s]*[^\d]*([\d,]+(?:\.\d+)?)\<close>\<close>

definition treatment_cost_pattern :: regex where
  "treatment_cost_pattern =
     seqs [lits ''treatment'', star space, lits ''cost'', star colon_space,
           star (NotIn [CatDigit]), number_group]"

text \<open>\<^verbatim>\<open>[Rr]s\.?\s*([\d,]+(?:\.\d+)?)\s*(?:L|Lakh)?\<close>\<close>

definition rs_pattern :: regex where
  "rs_pattern =
     seqs [Atom (In [Ch (of_char CHR ''R''), Ch (of_char CHR ''r'')]), lits ''s'',
           Opt (Atom (Lit (of_char CHR ''.''))), star space, number_group, star space,
           Opt (Alt (lits ''L'') (lits ''Lakh''))]"

text \<open>The rupee sign U+20B9, then \<^verbatim>\<open>\s*([\d,]+(?:\.\d+)?)\s*(?:L|Lakh)?\<close>\<close>

definition rupee_pattern :: regex where
  "rupee_pattern =
     seqs [Atom (Lit 0x20B9), star space, number_group, star space,
           Opt (Alt (lits ''L'') (lits ''Lakh''))]"

text \<open>\<^verbatim>\<open>([\d,]+(?:\.\d+)?)\s*(?:L|Lakh|INR)\<close>\<close>

definition unit_pattern :: regex where
  "unit_pattern =
     seqs [number_group, star space, Alt (lits ''L'') (Alt (lits ''Lakh'') (lits ''INR''))]"

text \<open>\<^verbatim>\<open>claim\s*amount[:\s]+([\d,]+(?:\.\d+)?)\<close>\<close>

definition claim_amount_pattern :: regex where
  "claim_amount_pattern =
     seqs [lits ''claim'', star space, lits ''amount'', plus1 colon_space, number_group]"

text \<open>\<^verbatim>\<open>amount[:\s]+([\d,]+(?:\.\d+)?)\<close>\<close>

definition amount_pattern :: regex where
  "amount_pattern = seqs [lits ''amount'', plus1 colon_space, number_group]"

definition amount_patterns :: "regex list" where
  "amount_patterns =
     [treatment_cost_pattern, rs_pattern, rupee_pattern, unit_pattern,
      claim_amount_pattern, amount_pattern]"

text \<open>\<^verbatim>\<open>policy\s*(?:no|number|#)?[:\s]*([A-Za-z0-9\-/]+)\<close>\<close>

definition policy_pattern :: regex where
  "policy_pattern =
     seqs [lits ''policy'', star space,
           Opt (Alt (lits ''no'') (Alt (lits ''number'') (lits ''#''))),
           star colon_space,
           Group 1 (plus1 (In [Rng (of_char CHR ''A'') (of_char CHR ''Z''),
                               Rng (of_char CHR ''a'') (of_char CHR ''z''),
                               Rng (of_char CHR ''0'') (of_char CHR ''9''),
                               Ch (of_char CHR ''-''), Ch (of_char CHR ''/'')]))]"

text \<open>\<^verbatim>\<open>date\s+of\s+incident[:\s]*(\d{1,2}[/\-]\d{1,2}[/\-]\d{2,4})\<close>\<close>

definition date_of_incident_pattern :: regex where
  "date_of_incident_pattern =
     seqs [lits ''date'', plus1 space, lits ''of'', plus1 space, lits ''incident'',
           star colon_space, date_group]"

text \<open>\<^verbatim>\<open>(?:incident|date|loss|accident)\s*(?:date)?[:\s]*(\d{1,2}[/\-]\d{1,2}[/\-]\d{2,4})\<close>\<close>

definition date_keyword_pattern :: regex where
  "date_keyword_pattern =
     seqs [Alt (lits ''incident'') (Alt (lits ''date'') (Alt (lits ''loss'') (lits ''accident''))),
           star space, Opt (lits ''date''), star colon_space, date_group]"

text \<open>\<^verbatim>\<open>(\d{1,2}[/\-]\d{1,2}[/\-]\d{2,4})\<close>\<close>

definition bare_date_pattern :: regex where
  "bare_date_pattern = date_group"

text \<open>\<^verbatim>\<open>policy\s*holder\s*name[:\s]*([A-Za-z\s]{2,50})\<close>\<close>

definition policy_holder_name_pattern :: regex where
  "policy_holder_name_pattern =
     seqs [lits ''policy'', star space, lits ''holder'', star space, lits ''name'',
           star colon_space, name_group]"

text \<open>\<^verbatim>\<open>(?:claimant|name|insured)[:\s]*([A-Za-z\s]{2,50})\<close>\<close>

definition name_keyword_pattern :: regex where
  "name_keyword_pattern =
     seqs [Alt (lits ''claimant'') (Alt (lits ''name'') (lits ''insured'')),
           star colon_space, name_group]"

section \<open>Field records and \<open>extract_key_fields\<close>\<close>

text \<open>
  A field record is a Python dictionary from strings to \<^verbatim>\<open>None\<close> or a string: a key
  can be absent, present with the value \<^verbatim>\<open>None\<close>, or present with a string.
\<close>

type_synonym fields = "ustring \<rightharpoonup> ustring option"

definition then_do :: "py_error + 'a \<Rightarrow> ('a \<Rightarrow> py_error + 'b) \<Rightarrow> py_error + 'b" where
  "then_do r f = (case r of Inl err \<Rightarrow> Inl err | Inr v \<Rightarrow> f v)"

text \<open>The loop over \<open>amount_patterns\<close>, which stops at the first pattern that matches.\<close>

fun amount_loop :: "regex list \<Rightarrow> ustring \<Rightarrow> fields \<Rightarrow> py_error + fields" where
  "amount_loop [] text flds = Inr flds"
| "amount_loop (p # ps) text flds =
     (case re_search True p text of
        Some m \<Rightarrow> then_do (group_strip m 1) (\<lambda>v. Inr (flds(ustr ''claim_amount'' \<mapsto> Some v)))
      | None \<Rightarrow> amount_loop ps text flds)"

definition policy_step :: "ustring \<Rightarrow> fields \<Rightarrow> py_error + fields" where
  "policy_step text flds =
     (case re_search True policy_pattern text of
        Some policy_m \<Rightarrow>
          then_do (group_strip policy_m 1) (\<lambda>v. Inr (flds(ustr ''policy_number'' \<mapsto> Some v)))
      | None \<Rightarrow> Inr flds)"

definition date_step :: "ustring \<Rightarrow> fields \<Rightarrow> py_error + fields" where
  "date_step text flds =
     (case re_search True date_of_incident_pattern text of
        Some date_m \<Rightarrow>
          then_do (group_strip date_m 1) (\<lambda>v. Inr (flds(ustr ''incident_date'' \<mapsto> Some v)))
      | None \<Rightarrow>
          (case re_search True date_keyword_pattern text of
             Some date_m \<Rightarrow>
               then_do (group_strip date_m 1)
                 (\<lambda>v. Inr (flds(ustr ''incident_date'' \<mapsto> Some v)))
           | None \<Rightarrow>
               (case re_search False bare_date_pattern text of
                  Some date_m \<Rightarrow>
                    then_do (group_strip date_m 1)
                      (\<lambda>v. Inr (flds(ustr ''incident_date'' \<mapsto> Some v)))
                | None \<Rightarrow> Inr flds)))"

definition name_step :: "ustring \<Rightarrow> fields \<Rightarrow> py_error + fields" where
  "name_step text flds =
     (let name_m = (case re_search True policy_holder_name_pattern text of
                      Some m \<Rightarrow> Some m
                    | None \<Rightarrow> re_search True name_keyword_pattern text)
      in case name_m of
           Some m \<Rightarrow>
             then_do (group_strip m 1)
               (\<lambda>v. Inr (flds(ustr ''claimant_name'' \<mapsto> Some (take 80 v))))
         | None \<Rightarrow> Inr flds)"

definition initial_fields :: fields where
  "initial_fields =
     [ustr ''claim_amount'' \<mapsto> None, ustr ''claimant_name'' \<mapsto> None,
      ustr ''incident_date'' \<mapsto> None, ustr ''policy_number'' \<mapsto> None]"

definition extract_key_fields :: "ustring \<Rightarrow> py_error + fields" where
  "extract_key_fields text =
     then_do (amount_loop amount_patterns text initial_fields) (\<lambda>f1.
     then_do (policy_step text f1) (\<lambda>f2.
     then_do (date_step text f2) (\<lambda>f3.
     name_step text f3)))"

section \<open>\<open>compute_differences\<close> and \<open>key_fields_indicate_different_claim\<close>\<close>

text \<open>A difference entry, the dictionary with the keys \<^verbatim>\<open>field\<close>, \<^verbatim>\<open>old_value\<close>, \<^verbatim>\<open>new_value\<close>.\<close>

record diff_entry =
  field :: ustring
  old_value :: ustring
  new_value :: ustring

text \<open>\<^verbatim>\<open>d.get(key)\<close>: \<^verbatim>\<open>None\<close> for an absent key, else the value, which may be \<^verbatim>\<open>None\<close>.\<close>

definition dict_get :: "fields \<Rightarrow> ustring \<Rightarrow> ustring option" where
  "dict_get d key = (case d key of None \<Rightarrow> None | Some v \<Rightarrow> v)"

text \<open>
  \<^verbatim>\<open>str(v) if v is not None else "\<dots>"\<close>, where the placeholder is the one-character
  string of the em dash U+2014; \<^verbatim>\<open>str\<close> of a string is the string.
\<close>

definition render :: "ustring option \<Rightarrow> ustring" where
  "render v = (case v of None \<Rightarrow> [0x2014] | Some s \<Rightarrow> s)"

text \<open>
  The loop \<^verbatim>\<open>for key in all_keys\<close>, appending to \<open>diffs\<close>.  \<open>all_keys\<close> is a Python
  set, which is iterated in an order the language does not fix; the order of the
  iteration is the first argument.
\<close>

fun diff_loop ::
  "ustring list \<Rightarrow> fields \<Rightarrow> fields \<Rightarrow> diff_entry list \<Rightarrow> diff_entry list" where
  "diff_loop [] new_fields existing_fields diffs = diffs"
| "diff_loop (key # keys) new_fields existing_fields diffs =
     (let ov = dict_get existing_fields key;
          nv = dict_get new_fields key
      in if ov = None \<and> nv = None then diff_loop keys new_fields existing_fields diffs
         else if ov \<noteq> nv then
           diff_loop keys new_fields existing_fields
             (diffs @ [\<lparr>field = key, old_value = render ov, new_value = render nv\<rparr>])
         else diff_loop keys new_fields existing_fields diffs)"

text \<open>
  \<open>iterates all_keys new_fields existing_fields\<close>: the list is an iteration of the set
  \<^verbatim>\<open>set(new_fields) | set(existing_fields)\<close>, each key once.
\<close>

definition iterates :: "ustring list \<Rightarrow> fields \<Rightarrow> fields \<Rightarrow> bool" where
  "iterates all_keys new_fields existing_fields =
     (distinct all_keys \<and> set all_keys = dom new_fields \<union> dom existing_fields)"

definition compute_differences :: "ustring list \<Rightarrow> fields \<Rightarrow> fields \<Rightarrow> diff_entry list" where
  "compute_differences all_keys new_fields existing_fields =
     diff_loop all_keys new_fields existing_fields []"

definition CRITICAL_CLAIM_FIELDS :: "ustring list" where
  "CRITICAL_CLAIM_FIELDS =
     [ustr ''policy_number'', ustr ''claimant_name'', ustr ''claim_amount'',
      ustr ''incident_date'']"

text \<open>
  The threshold is optional: \<open>None\<close> is a call without \<open>min_differences\<close>, which
  takes the default.
\<close>

definition key_fields_indicate_different_claim ::
  "ustring list \<Rightarrow> fields \<Rightarrow> fields \<Rightarrow> int option \<Rightarrow> bool" where
  "key_fields_indicate_different_claim all_keys new_fields existing_fields md =
     (let min_differences = (case md of None \<Rightarrow> 2 | Some v \<Rightarrow> v);
          diffs = compute_differences all_keys new_fields existing_fields;
          critical_diffs = filter (\<lambda>d. field d \<in> set CRITICAL_CLAIM_FIELDS) diffs
      in int (length critical_diffs) \<ge> min_differences)"

section \<open>Properties of patterns used in the proofs\<close>

text \<open>
  \<open>sets n r\<close>: every way of matching \<open>r\<close> goes through group \<open>n\<close>; \<open>ksets\<close> is the
  same for a continuation.
\<close>

fun sets :: "nat \<Rightarrow> regex \<Rightarrow> bool" where
  "sets n Eps = False"
| "sets n (Atom a) = False"
| "sets n (Seq p q) = (sets n p \<or> sets n q)"
| "sets n (Alt p q) = (sets n p \<and> sets n q)"
| "sets n (Opt p) = False"
| "sets n (Rep lo hi a) = False"
| "sets n (Group g p) = (g = n \<or> sets n p)"

fun ksets :: "nat \<Rightarrow> kont list \<Rightarrow> bool" where
  "ksets n [] = False"
| "ksets n (Close g b # k) = (g = n \<or> ksets n k)"
| "ksets n (R r # k) = (sets n r \<or> ksets n k)"

definition has_group1 :: "regex \<Rightarrow> bool" where
  "has_group1 p = (sets 1 p \<and> 1 \<le> groups p)"

text \<open>\<^verbatim>\<open>result[key]\<close> on the value returned by \<open>extract_key_fields\<close>.\<close>

definition field_of :: "py_error + fields \<Rightarrow> ustring \<Rightarrow> ustring option option" where
  "field_of r key = (case r of Inl err \<Rightarrow> None | Inr flds \<Rightarrow> flds key)"

section \<open>The matcher sets the group of a pattern\<close>

lemma marks_set:
  "sre_match ic k s i c = Some (e, c') \<Longrightarrow> ksets n k \<or> c n \<noteq> None \<Longrightarrow> c' n \<noteq> None"
proof (induction ic k s i c rule: sre_match.induct)
  case (7 ic p q k s i c)
  then show ?case by (auto split: option.splits)
next
  case (8 ic p k s i c)
  then show ?case by (auto split: option.splits)
next
  case (10 ic lo hi a k x xs i c)
  then show ?case by (auto split: option.splits if_splits)
qed (auto split: if_splits)

lemma search_from_marks:
  "search_from ic p text s i = Some m \<Longrightarrow> sets n p \<Longrightarrow>
     m_re m = p \<and> m_string m = text \<and> m_marks m n \<noteq> None"
proof (induction s arbitrary: i)
  case Nil
  then show ?case by (auto split: option.splits dest: marks_set[where n = n])
next
  case (Cons x xs)
  then show ?case by (auto split: option.splits dest: marks_set[where n = n])
qed

lemma sets_seqs: "sets n (seqs rs) = list_ex (sets n) rs"
  by (induction rs rule: seqs.induct) auto

lemma groups_seqs: "groups (seqs rs) = foldr (\<lambda>r m. max (groups r) m) rs 0"
  by (induction rs rule: seqs.induct) auto

lemma groups_lits [simp]: "groups (lits cs) = 0"
  by (induction cs) (auto simp: lits_def groups_seqs)

lemma group_strip_ok:
  assumes "re_search ic p text = Some m" and "has_group1 p"
  shows "\<exists>b e. m_marks m 1 = Some (b, e) \<and> match_group m 1 = Inr (Some (slice text b e)) \<and>
               group_strip m 1 = Inr (strip (slice text b e))"
proof -
  from assms have "m_re m = p \<and> m_string m = text \<and> m_marks m 1 \<noteq> None"
    by (auto simp: re_search_def has_group1_def dest: search_from_marks)
  moreover have "1 \<le> groups p" using assms by (simp add: has_group1_def)
  ultimately show ?thesis
    by (auto simp: match_group_def group_strip_def)
qed

lemma has_group1_patterns:
  "has_group1 treatment_cost_pattern" "has_group1 rs_pattern" "has_group1 rupee_pattern"
  "has_group1 unit_pattern" "has_group1 claim_amount_pattern" "has_group1 amount_pattern"
  "has_group1 policy_pattern" "has_group1 date_of_incident_pattern"
  "has_group1 date_keyword_pattern" "has_group1 bare_date_pattern"
  "has_group1 policy_holder_name_pattern" "has_group1 name_keyword_pattern"
  by (simp_all add: has_group1_def sets_seqs groups_seqs treatment_cost_pattern_def rs_pattern_def
      rupee_pattern_def unit_pattern_def claim_amount_pattern_def amount_pattern_def
      policy_pattern_def date_of_incident_pattern_def date_keyword_pattern_def
      bare_date_pattern_def policy_holder_name_pattern_def name_keyword_pattern_def
      number_group_def date_group_def name_group_def)



lemma sre_match_factor:
  "sre_match ic k s i c = Some r \<Longrightarrow> k = k1 @ k2 \<Longrightarrow>
     \<exists>s' i' c'. sre_match ic k2 s' i' c' = Some r"
proof (induction ic k s i c arbitrary: k1 rule: sre_match.induct)
  case (1 ic s i c)
  then show ?case by auto
next
  case (2 ic n b k s i c)
  show ?case
  proof (cases k1)
    case Nil
    with "2.prems" show ?thesis by auto
  next
    case (Cons x k1')
    with "2.prems"(2) have k: "k = k1' @ k2" by simp
    from "2.prems"(1) have "sre_match ic k s i (c(n \<mapsto> (b, i))) = Some r" by simp
    then show ?thesis using k by (rule "2.IH")
  qed
next
  case (3 ic k s i c)
  show ?case
  proof (cases k1)
    case Nil
    with "3.prems" show ?thesis by auto
  next
    case (Cons x k1')
    with "3.prems"(2) have k: "k = k1' @ k2" by simp
    from "3.prems"(1) have "sre_match ic k s i c = Some r" by simp
    then show ?thesis using k by (rule "3.IH")
  qed
next
  case (4 ic a k i c)
  from "4.prems"(1) show ?case by simp
next
  case (5 ic a k x xs i c)
  show ?case
  proof (cases k1)
    case Nil
    with "5.prems" show ?thesis by auto
  next
    case (Cons y k1')
    with "5.prems"(2) have k: "k = k1' @ k2" by simp
    from "5.prems"(1) have m: "atom_match ic a x" and "sre_match ic k xs (Suc i) c = Some r"
      by (simp_all split: if_splits)
    then show ?thesis using "5.IH"[OF m _ k] by blast
  qed
next
  case (6 ic p q k s i c)
  show ?case
  proof (cases k1)
    case Nil
    with "6.prems" show ?thesis by auto
  next
    case (Cons y k1')
    with "6.prems"(2) have k: "R p # R q # k = (R p # R q # k1') @ k2" by simp
    from "6.prems"(1) have "sre_match ic (R p # R q # k) s i c = Some r" by simp
    then show ?thesis using k by (rule "6.IH")
  qed
next
  case (7 ic p q k s i c)
  show ?case
  proof (cases k1)
    case Nil
    with "7.prems" show ?thesis by auto
  next
    case (Cons y k1')
    with "7.prems"(2) have kp: "R p # k = (R p # k1') @ k2" and kq: "R q # k = (R q # k1') @ k2"
      by simp_all
    show ?thesis
    proof (cases "sre_match ic (R p # k) s i c")
      case None
      with "7.prems"(1) have "sre_match ic (R q # k) s i c = Some r" by simp
      then show ?thesis using kq by (rule "7.IH"(2)[OF None])
    next
      case (Some r')
      with "7.prems"(1) have "sre_match ic (R p # k) s i c = Some r" by simp
      then show ?thesis using kp by (rule "7.IH"(1))
    qed
  qed
next
  case (8 ic p k s i c)
  show ?case
  proof (cases k1)
    case Nil
    with "8.prems" show ?thesis by auto
  next
    case (Cons y k1')
    with "8.prems"(2) have kp: "R p # k = (R p # k1') @ k2" and k: "k = k1' @ k2"
      by simp_all
    show ?thesis
    proof (cases "sre_match ic (R p # k) s i c")
      case None
      with "8.prems"(1) have "sre_match ic k s i c = Some r" by simp
      then show ?thesis using k by (rule "8.IH"(2)[OF None])
    next
      case (Some r')
      with "8.prems"(1) have "sre_match ic (R p # k) s i c = Some r" by simp
      then show ?thesis using kp by (rule "8.IH"(1))
    qed
  qed
next
  case (9 ic lo hi a k i c)
  show ?case
  proof (cases k1)
    case Nil
    with "9.prems" show ?thesis by auto
  next
    case (Cons y k1')
    with "9.prems"(2) have k: "k = k1' @ k2" by simp
    from "9.prems"(1) have l: "lo = 0" and "sre_match ic k [] i c = Some r"
      by (simp_all split: if_splits)
    then show ?thesis using "9.IH"[OF l _ k] by blast
  qed
next
  case (10 ic lo hi a k x xs i c)
  let ?rep = "R (Rep (lo - 1) (map_option (\<lambda>h. h - 1) hi) a)"
  show ?case
  proof (cases k1)
    case Nil
    with "10.prems" show ?thesis by auto
  next
    case (Cons y k1')
    with "10.prems"(2) have k: "k = k1' @ k2" and kr: "?rep # k = (?rep # k1') @ k2"
      by simp_all
    show ?thesis
    proof (cases "hi \<noteq> Some 0 \<and> atom_match ic a x")
      case True
      show ?thesis
      proof (cases "sre_match ic (?rep # k) xs (Suc i) c")
        case None
        with True "10.prems"(1) have l: "lo = 0" and "sre_match ic k (x # xs) i c = Some r"
          by (simp_all split: if_splits)
        then show ?thesis using "10.IH"(2)[OF True None l _ k] by blast
      next
        case (Some r')
        with True "10.prems"(1) have "sre_match ic (?rep # k) xs (Suc i) c = Some r" by simp
        then show ?thesis using kr by (rule "10.IH"(1)[OF True])
      qed
    next
      case False
      with "10.prems"(1) have l: "lo = 0" and "sre_match ic k (x # xs) i c = Some r"
        by (simp_all split: if_splits)
      then show ?thesis using "10.IH"(3)[OF False l _ k] by blast
    qed
  qed
next
  case (11 ic n p k s i c)
  show ?case
  proof (cases k1)
    case Nil
    with "11.prems" show ?thesis by auto
  next
    case (Cons y k1')
    with "11.prems"(2) have k: "R p # Close n i # k = (R p # Close n i # k1') @ k2" by simp
    from "11.prems"(1) have "sre_match ic (R p # Close n i # k) s i c = Some r" by simp
    then show ?thesis using k by (rule "11.IH")
  qed
qed

lemma rep_close:
  "sre_match ic [R (Rep lo (Some hi) a), Close n b] s i c = Some (e, c') \<Longrightarrow>
     c' n = Some (b, e) \<and> e \<le> i + hi"
proof (induction s arbitrary: lo hi i)
  case Nil
  then show ?case by (auto split: if_splits)
next
  case (Cons x xs)
  show ?case
  proof (cases "hi \<noteq> 0 \<and> atom_match ic a x")
    case True
    show ?thesis
    proof (cases "sre_match ic [R (Rep (lo - 1) (Some (hi - 1)) a), Close n b] xs (Suc i) c")
      case None
      with True Cons.prems show ?thesis by (auto split: if_splits)
    next
      case (Some r')
      with True Cons.prems
      have "sre_match ic [R (Rep (lo - 1) (Some (hi - 1)) a), Close n b] xs (Suc i) c = Some (e, c')"
        by auto
      from Cons.IH[OF this] True show ?thesis by auto
    qed
  next
    case False
    with Cons.prems show ?thesis by (auto split: if_splits)
  qed
qed

lemma seqs_last:
  "sre_match ic [R (seqs (rs @ [g]))] s i c = Some r \<Longrightarrow>
     \<exists>s' i' c'. sre_match ic [R g] s' i' c' = Some r"
proof (induction rs arbitrary: s i c)
  case Nil
  then show ?case by auto
next
  case (Cons x rs)
  have "seqs ((x # rs) @ [g]) = Seq x (seqs (rs @ [g]))"
    by (cases rs) simp_all
  with Cons.prems have "sre_match ic ([R x] @ [R (seqs (rs @ [g]))]) s i c = Some r"
    by simp
  from sre_match_factor[OF this refl] Cons.IH show ?case by blast
qed

lemma name_group_bound:
  assumes "sre_match ic [R (seqs (rs @ [name_group]))] s i c = Some (e, c')"
  shows "\<exists>b. c' 1 = Some (b, e) \<and> e \<le> b + 50"
proof -
  from seqs_last[OF assms] obtain s' i' c0 where
    "sre_match ic [R name_group] s' i' c0 = Some (e, c')" by blast
  then have "sre_match ic [R (Rep 2 (Some 50) (In [Rng (of_char CHR ''A'') (of_char CHR ''Z''),
            Rng (of_char CHR ''a'') (of_char CHR ''z''), CatSpace])), Close 1 i'] s' i' c0 = Some (e, c')"
    by (simp add: name_group_def)
  from rep_close[OF this] show ?thesis by blast
qed

lemma search_from_name_bound:
  "search_from ic (seqs (rs @ [name_group])) text s i = Some m \<Longrightarrow>
     \<exists>b e. m_marks m 1 = Some (b, e) \<and> e \<le> b + 50"
proof (induction s arbitrary: i)
  case Nil
  then show ?case by (auto split: option.splits dest: name_group_bound)
next
  case (Cons x xs)
  then show ?case by (auto split: option.splits dest: name_group_bound)
qed

lemma name_patterns_shape:
  "\<exists>rs. policy_holder_name_pattern = seqs (rs @ [name_group])"
  "\<exists>rs. name_keyword_pattern = seqs (rs @ [name_group])"
proof -
  have "policy_holder_name_pattern = seqs ([lits ''policy'', star space, lits ''holder'', star space, lits ''name'',
           star colon_space] @ [name_group])"
    by (simp add: policy_holder_name_pattern_def)
  then show "\<exists>rs. policy_holder_name_pattern = seqs (rs @ [name_group])" by blast
  have "name_keyword_pattern = seqs ([Alt (lits ''claimant'') (Alt (lits ''name'') (lits ''insured'')),
           star colon_space] @ [name_group])"
    by (simp add: name_keyword_pattern_def)
  then show "\<exists>rs. name_keyword_pattern = seqs (rs @ [name_group])" by blast
qed

section \<open>The steps of \<open>extract_key_fields\<close>\<close>

lemma keys_distinct:
  "ustr ''claim_amount'' \<noteq> ustr ''claimant_name''"
  "ustr ''claim_amount'' \<noteq> ustr ''incident_date''"
  "ustr ''claim_amount'' \<noteq> ustr ''policy_number''"
  "ustr ''claimant_name'' \<noteq> ustr ''incident_date''"
  "ustr ''claimant_name'' \<noteq> ustr ''policy_number''"
  "ustr ''incident_date'' \<noteq> ustr ''policy_number''"
  by (simp_all add: ustr_def)

lemma length_strip: "length (strip s) \<le> length s"
proof -
  have "length (rstrip t) \<le> length t" for t
    using length_dropWhile_le[of is_space "rev t"] by (simp add: rstrip_def)
  moreover have "length (lstrip s) \<le> length s"
    by (simp add: lstrip_def length_dropWhile_le)
  ultimately show ?thesis
    unfolding strip_def by (meson le_trans)
qed

lemma amount_loop_find:
  assumes "\<forall>p \<in> set ps. has_group1 p"
  shows "case List.find (\<lambda>p. re_search True p text \<noteq> None) ps of
           None \<Rightarrow> amount_loop ps text flds = Inr flds
         | Some p \<Rightarrow> \<exists>m g. re_search True p text = Some m \<and> match_group m 1 = Inr (Some g) \<and>
              amount_loop ps text flds = Inr (flds(ustr ''claim_amount'' \<mapsto> Some (strip g)))"
  using assms
proof (induction ps)
  case Nil
  then show ?case by simp
next
  case (Cons p ps)
  show ?case
  proof (cases "re_search True p text")
    case None
    from Cons have IH:
      "case List.find (\<lambda>p. re_search True p text \<noteq> None) ps of
           None \<Rightarrow> amount_loop ps text flds = Inr flds
         | Some p \<Rightarrow> \<exists>m g. re_search True p text = Some m \<and> match_group m 1 = Inr (Some g) \<and>
              amount_loop ps text flds = Inr (flds(ustr ''claim_amount'' \<mapsto> Some (strip g)))"
      by simp
    have a: "amount_loop (p # ps) text flds = amount_loop ps text flds"
      using None by simp
    have b: "List.find (\<lambda>p. re_search True p text \<noteq> None) (p # ps) =
             List.find (\<lambda>p. re_search True p text \<noteq> None) ps"
      using None by simp
    show ?thesis unfolding a b by (rule IH)
  next
    case (Some m)
    from Cons.prems have "has_group1 p" by simp
    from group_strip_ok[OF Some this] Some show ?thesis
      by (auto simp: then_do_def)
  qed
qed

lemma amount_patterns_group1: "\<forall>p \<in> set amount_patterns. has_group1 p"
  by (simp add: amount_patterns_def has_group1_patterns)

lemma policy_step_result:
  "(re_search True policy_pattern text = None \<and> policy_step text flds = Inr flds) \<or>
   (\<exists>v. policy_step text flds = Inr (flds(ustr ''policy_number'' \<mapsto> Some v)))"
proof (cases "re_search True policy_pattern text")
  case None
  then show ?thesis by (simp add: policy_step_def)
next
  case (Some m)
  from group_strip_ok[OF Some has_group1_patterns(7)] Some show ?thesis
    by (auto simp: policy_step_def then_do_def)
qed

lemma date_step_result:
  "(re_search True date_of_incident_pattern text = None \<and>
    re_search True date_keyword_pattern text = None \<and>
    re_search False bare_date_pattern text = None \<and> date_step text flds = Inr flds) \<or>
   (\<exists>v. date_step text flds = Inr (flds(ustr ''incident_date'' \<mapsto> Some v)))"
proof (cases "re_search True date_of_incident_pattern text")
  case (Some m)
  from group_strip_ok[OF Some has_group1_patterns(8)] Some show ?thesis
    by (auto simp: date_step_def then_do_def)
next
  case n1: None
  show ?thesis
  proof (cases "re_search True date_keyword_pattern text")
    case (Some m)
    from group_strip_ok[OF Some has_group1_patterns(9)] Some n1 show ?thesis
      by (auto simp: date_step_def then_do_def)
  next
    case n2: None
    show ?thesis
    proof (cases "re_search False bare_date_pattern text")
      case (Some m)
      from group_strip_ok[OF Some has_group1_patterns(10)] Some n1 n2 show ?thesis
        by (auto simp: date_step_def then_do_def)
    next
      case None
      with n1 n2 show ?thesis by (simp add: date_step_def)
    qed
  qed
qed

lemma name_match_bound:
  assumes "re_search ic p text = Some m" and "\<exists>rs. p = seqs (rs @ [name_group])"
    and "has_group1 p"
  shows "\<exists>g. match_group m 1 = Inr (Some g) \<and> length g \<le> 50 \<and>
             group_strip m 1 = Inr (strip g) \<and> take 80 (strip g) = strip g"
proof -
  from assms(1,2) obtain b e where be: "m_marks m 1 = Some (b, e)" "e \<le> b + 50"
    by (auto simp: re_search_def dest: search_from_name_bound)
  from group_strip_ok[OF assms(1,3)] be
  have g: "match_group m 1 = Inr (Some (slice text b e))"
    "group_strip m 1 = Inr (strip (slice text b e))" by auto
  have l: "length (slice text b e) \<le> 50"
    using be(2) by (simp add: slice_def)
  with length_strip[of "slice text b e"] have "length (strip (slice text b e)) \<le> 80"
    by simp
  then have "take 80 (strip (slice text b e)) = strip (slice text b e)"
    by simp
  with g l show ?thesis by blast
qed

lemma name_step_result:
  "(re_search True policy_holder_name_pattern text = None \<and>
    re_search True name_keyword_pattern text = None \<and> name_step text flds = Inr flds) \<or>
   (\<exists>m g. (re_search True policy_holder_name_pattern text = Some m \<or>
            re_search True name_keyword_pattern text = Some m) \<and>
          match_group m 1 = Inr (Some g) \<and> length g \<le> 50 \<and>
          name_step text flds = Inr (flds(ustr ''claimant_name'' \<mapsto> Some (strip g))))"
proof (cases "re_search True policy_holder_name_pattern text")
  case (Some m)
  from name_match_bound[OF Some name_patterns_shape(1) has_group1_patterns(11)] obtain g where
    "match_group m 1 = Inr (Some g)" "length g \<le> 50" "group_strip m 1 = Inr (strip g)"
    "take 80 (strip g) = strip g" by blast
  moreover from this Some
  have "name_step text flds = Inr (flds(ustr ''claimant_name'' \<mapsto> Some (strip g)))"
    by (simp add: name_step_def then_do_def)
  ultimately show ?thesis using Some by blast
next
  case n1: None
  show ?thesis
  proof (cases "re_search True name_keyword_pattern text")
    case (Some m)
    from name_match_bound[OF Some name_patterns_shape(2) has_group1_patterns(12)] obtain g where
      "match_group m 1 = Inr (Some g)" "length g \<le> 50" "group_strip m 1 = Inr (strip g)"
      "take 80 (strip g) = strip g" by blast
    moreover from this Some n1
    have "name_step text flds = Inr (flds(ustr ''claimant_name'' \<mapsto> Some (strip g)))"
      by (simp add: name_step_def then_do_def)
    ultimately show ?thesis using Some by blast
  next
    case None
    with n1 show ?thesis by (simp add: name_step_def)
  qed
qed

lemma initial_fields_dom:
  "dom initial_fields = {ustr ''claim_amount'', ustr ''claimant_name'', ustr ''incident_date'',
     ustr ''policy_number''}"
  by (auto simp: initial_fields_def)

lemma initial_fields_None:
  "initial_fields (ustr ''claim_amount'') = Some None"
  "initial_fields (ustr ''claimant_name'') = Some None"
  "initial_fields (ustr ''incident_date'') = Some None"
  "initial_fields (ustr ''policy_number'') = Some None"
  by (simp_all add: initial_fields_def keys_distinct)

lemma extract_steps:
  "\<exists>f1 f2 f3 f4.
     amount_loop amount_patterns text initial_fields = Inr f1 \<and>
     policy_step text f1 = Inr f2 \<and> date_step text f2 = Inr f3 \<and>
     name_step text f3 = Inr f4 \<and> extract_key_fields text = Inr f4"
proof -
  obtain f1 where a1: "amount_loop amount_patterns text initial_fields = Inr f1"
    using amount_loop_find[OF amount_patterns_group1, of "text" initial_fields]
    by (auto split: option.splits)
  obtain f2 where a2: "policy_step text f1 = Inr f2"
    using policy_step_result[of "text" f1] by auto
  obtain f3 where a3: "date_step text f2 = Inr f3"
    using date_step_result[of "text" f2] by auto
  obtain f4 where a4: "name_step text f3 = Inr f4"
    using name_step_result[of "text" f3] by auto
  from a1 a2 a3 a4 have "extract_key_fields text = Inr f4"
    by (simp add: extract_key_fields_def then_do_def)
  with a1 a2 a3 a4 show ?thesis by blast
qed

text \<open>The record returned by \<open>extract_key_fields\<close>, field by field.\<close>

lemma dom_upd_same:
  "dom f = S \<Longrightarrow> k \<in> S \<Longrightarrow> f' = f \<or> (\<exists>v. f' = f(k \<mapsto> v)) \<Longrightarrow> dom f' = S"
  by (auto split: if_splits)

lemma upd_other:
  "f' = f \<or> (\<exists>v. f' = f(k \<mapsto> v)) \<Longrightarrow> k' \<noteq> k \<Longrightarrow> f' k' = f k'"
  by auto

lemma extract_fields:
  "\<exists>f. extract_key_fields text = Inr f \<and>
     dom f = {ustr ''claim_amount'', ustr ''claimant_name'', ustr ''incident_date'',
              ustr ''policy_number''} \<and>
     (f (ustr ''claim_amount'') = Some None \<or>
        (\<exists>p \<in> set amount_patterns. re_search True p text \<noteq> None)) \<and>
     (f (ustr ''policy_number'') = Some None \<or> re_search True policy_pattern text \<noteq> None) \<and>
     (f (ustr ''incident_date'') = Some None \<or>
        re_search True date_of_incident_pattern text \<noteq> None \<or>
        re_search True date_keyword_pattern text \<noteq> None \<or>
        re_search False bare_date_pattern text \<noteq> None) \<and>
     (f (ustr ''claimant_name'') = Some None \<or>
        (\<exists>m g. (re_search True policy_holder_name_pattern text = Some m \<or>
            re_search True name_keyword_pattern text = Some m) \<and>
          match_group m 1 = Inr (Some g) \<and> length g \<le> 50 \<and>
          f (ustr ''claimant_name'') = Some (Some (strip g))))"
proof -
  obtain f1 f2 f3 f4 where st:
    "amount_loop amount_patterns text initial_fields = Inr f1"
    "policy_step text f1 = Inr f2" "date_step text f2 = Inr f3"
    "name_step text f3 = Inr f4" "extract_key_fields text = Inr f4"
    using extract_steps by blast
  let ?ca = "ustr ''claim_amount''" and ?cn = "ustr ''claimant_name''"
  let ?d = "ustr ''incident_date''" and ?pn = "ustr ''policy_number''"
  let ?K = "{?ca, ?cn, ?d, ?pn}"
  have s1: "(f1 = initial_fields \<and> (\<forall>p \<in> set amount_patterns. re_search True p text = None)) \<or>
            (\<exists>v. f1 = initial_fields(?ca \<mapsto> Some v))"
  proof (cases "List.find (\<lambda>p. re_search True p text \<noteq> None) amount_patterns")
    case None
    then have "\<forall>p \<in> set amount_patterns. re_search True p text = None"
      by (auto simp: find_None_iff)
    moreover have "f1 = initial_fields"
      using amount_loop_find[OF amount_patterns_group1, of "text" initial_fields] st(1) None
      by simp
    ultimately show ?thesis by blast
  next
    case (Some p)
    then show ?thesis
      using amount_loop_find[OF amount_patterns_group1, of "text" initial_fields] st(1)
      by auto
  qed
  have s2: "(f2 = f1 \<and> re_search True policy_pattern text = None) \<or>
            (\<exists>v. f2 = f1(?pn \<mapsto> Some v))"
    using policy_step_result[of "text" f1] st(2) by auto
  have s3: "(f3 = f2 \<and> re_search True date_of_incident_pattern text = None \<and>
             re_search True date_keyword_pattern text = None \<and>
             re_search False bare_date_pattern text = None) \<or>
            (\<exists>v. f3 = f2(?d \<mapsto> Some v))"
    using date_step_result[of "text" f2] st(3) by auto
  have s4: "(f4 = f3 \<and> re_search True policy_holder_name_pattern text = None \<and>
             re_search True name_keyword_pattern text = None) \<or>
            (\<exists>m g. (re_search True policy_holder_name_pattern text = Some m \<or>
                re_search True name_keyword_pattern text = Some m) \<and>
              match_group m 1 = Inr (Some g) \<and> length g \<le> 50 \<and>
              f4 = f3(?cn \<mapsto> Some (strip g)))"
    using name_step_result[of "text" f3] st(4) by auto
  have w1: "f1 = initial_fields \<or> (\<exists>v. f1 = initial_fields(?ca \<mapsto> v))"
    using s1 by blast
  have w2: "f2 = f1 \<or> (\<exists>v. f2 = f1(?pn \<mapsto> v))"
    using s2 by blast
  have w3: "f3 = f2 \<or> (\<exists>v. f3 = f2(?d \<mapsto> v))"
    using s3 by blast
  have w4: "f4 = f3 \<or> (\<exists>v. f4 = f3(?cn \<mapsto> v))"
    using s4 by blast
  have d1: "dom f1 = ?K"
    by (rule dom_upd_same[OF initial_fields_dom _ w1]) simp
  have d2: "dom f2 = ?K"
    by (rule dom_upd_same[OF d1 _ w2]) simp
  have d3: "dom f3 = ?K"
    by (rule dom_upd_same[OF d2 _ w3]) simp
  have d4: "dom f4 = ?K"
    by (rule dom_upd_same[OF d3 _ w4]) simp
  note kd = keys_distinct keys_distinct[symmetric]
  have i1: "f1 ?cn = Some None" "f1 ?d = Some None" "f1 ?pn = Some None"
    using upd_other[OF w1] by (simp_all add: kd initial_fields_None)
  have i2: "f2 ?ca = f1 ?ca" "f2 ?cn = Some None" "f2 ?d = Some None"
    using upd_other[OF w2] i1 by (simp_all add: kd)
  have i3: "f3 ?ca = f1 ?ca" "f3 ?cn = Some None" "f3 ?pn = f2 ?pn"
    using upd_other[OF w3] i2 by (simp_all add: kd)
  have i4: "f4 ?ca = f1 ?ca" "f4 ?d = f3 ?d" "f4 ?pn = f2 ?pn"
    using upd_other[OF w4] i3 by (simp_all add: kd)
  have "f1 ?ca = Some None \<or> (\<exists>p \<in> set amount_patterns. re_search True p text \<noteq> None)"
  proof (rule disjE[OF s1])
    assume "f1 = initial_fields \<and> (\<forall>p \<in> set amount_patterns. re_search True p text = None)"
    then show ?thesis by (simp add: initial_fields_None)
  next
    assume "\<exists>v. f1 = initial_fields(?ca \<mapsto> Some v)"
    then obtain v where "f1 = initial_fields(?ca \<mapsto> Some v)" by blast
    have "List.find (\<lambda>p. re_search True p text \<noteq> None) amount_patterns \<noteq> None"
    proof
      assume n: "List.find (\<lambda>p. re_search True p text \<noteq> None) amount_patterns = None"
      from amount_loop_find[OF amount_patterns_group1, of "text" initial_fields] n st(1)
      have "f1 = initial_fields" by simp
      with \<open>f1 = initial_fields(?ca \<mapsto> Some v)\<close> have "initial_fields ?ca = Some (Some v)"
        by (metis fun_upd_same)
      then show False by (simp add: initial_fields_None)
    qed
    then show ?thesis by (auto simp: find_None_iff)
  qed
  with i4(1) have ca: "f4 ?ca = Some None \<or>
      (\<exists>p \<in> set amount_patterns. re_search True p text \<noteq> None)" by simp
  have "f2 ?pn = Some None \<or> re_search True policy_pattern text \<noteq> None"
  proof (rule disjE[OF s2])
    assume "f2 = f1 \<and> re_search True policy_pattern text = None"
    with i1 show ?thesis by simp
  next
    assume "\<exists>v. f2 = f1(?pn \<mapsto> Some v)"
    then obtain v where v: "f2 = f1(?pn \<mapsto> Some v)" by blast
    have "re_search True policy_pattern text \<noteq> None"
    proof
      assume "re_search True policy_pattern text = None"
      then have "policy_step text f1 = Inr f1" by (simp add: policy_step_def)
      with st(2) have "f2 = f1" by simp
      with v have "f1 ?pn = Some (Some v)" by (metis fun_upd_same)
      with i1 show False by simp
    qed
    then show ?thesis by simp
  qed
  with i4(3) have pn: "f4 ?pn = Some None \<or> re_search True policy_pattern text \<noteq> None"
    by simp
  have "f3 ?d = Some None \<or>
        re_search True date_of_incident_pattern text \<noteq> None \<or>
        re_search True date_keyword_pattern text \<noteq> None \<or>
        re_search False bare_date_pattern text \<noteq> None"
  proof (rule disjE[OF s3])
    assume "f3 = f2 \<and> re_search True date_of_incident_pattern text = None \<and>
             re_search True date_keyword_pattern text = None \<and>
             re_search False bare_date_pattern text = None"
    with i2 show ?thesis by simp
  next
    assume "\<exists>v. f3 = f2(?d \<mapsto> Some v)"
    then obtain v where v: "f3 = f2(?d \<mapsto> Some v)" by blast
    have "\<not> (re_search True date_of_incident_pattern text = None \<and>
             re_search True date_keyword_pattern text = None \<and>
             re_search False bare_date_pattern text = None)"
    proof
      assume "re_search True date_of_incident_pattern text = None \<and>
             re_search True date_keyword_pattern text = None \<and>
             re_search False bare_date_pattern text = None"
      then have "date_step text f2 = Inr f2" by (simp add: date_step_def)
      with st(3) have "f3 = f2" by simp
      with v have "f2 ?d = Some (Some v)" by (metis fun_upd_same)
      with i2 show False by simp
    qed
    then show ?thesis by simp
  qed
  with i4(2) have d: "f4 ?d = Some None \<or>
        re_search True date_of_incident_pattern text \<noteq> None \<or>
        re_search True date_keyword_pattern text \<noteq> None \<or>
        re_search False bare_date_pattern text \<noteq> None" by simp
  have cn: "f4 ?cn = Some None \<or>
        (\<exists>m g. (re_search True policy_holder_name_pattern text = Some m \<or>
            re_search True name_keyword_pattern text = Some m) \<and>
          match_group m 1 = Inr (Some g) \<and> length g \<le> 50 \<and>
          f4 ?cn = Some (Some (strip g)))"
  proof (rule disjE[OF s4])
    assume "f4 = f3 \<and> re_search True policy_holder_name_pattern text = None \<and>
             re_search True name_keyword_pattern text = None"
    with i3 show ?thesis by simp
  next
    assume "\<exists>m g. (re_search True policy_holder_name_pattern text = Some m \<or>
                re_search True name_keyword_pattern text = Some m) \<and>
              match_group m 1 = Inr (Some g) \<and> length g \<le> 50 \<and>
              f4 = f3(?cn \<mapsto> Some (strip g))"
    then obtain m g where mg: "re_search True policy_holder_name_pattern text = Some m \<or>
                re_search True name_keyword_pattern text = Some m"
        "match_group m 1 = Inr (Some g)" "length g \<le> 50" "f4 = f3(?cn \<mapsto> Some (strip g))"
      by blast
    from mg(4) have "f4 ?cn = Some (Some (strip g))" by simp
    with mg(1,2,3) show ?thesis by blast
  qed
  show ?thesis
    apply (rule exI[of _ f4])
    apply (intro conjI)
    apply (rule st(5))
    apply (rule d4)
    apply (rule ca)
    apply (rule pn)
    apply (rule d)
    apply (rule cn)
    done
qed

section \<open>The difference list\<close>

lemma diff_loop_eq:
  "diff_loop ks n e ds =
     ds @ map (\<lambda>k. \<lparr>field = k, old_value = render (dict_get e k), new_value = render (dict_get n k)\<rparr>)
            (filter (\<lambda>k. dict_get n k \<noteq> dict_get e k) ks)"
  by (induction ks arbitrary: ds) (auto simp: Let_def)

lemma compute_differences_eq:
  "compute_differences ks n e =
     map (\<lambda>k. \<lparr>field = k, old_value = render (dict_get e k), new_value = render (dict_get n k)\<rparr>)
         (filter (\<lambda>k. dict_get n k \<noteq> dict_get e k) ks)"
  by (simp add: compute_differences_def diff_loop_eq)

lemma field_compute_differences:
  "map field (compute_differences ks n e) = filter (\<lambda>k. dict_get n k \<noteq> dict_get e k) ks"
  by (simp add: compute_differences_eq comp_def)

section \<open>The claims about the difference list and the classifier\<close>

text \<open>
  Claim C2.  \<open>key_fields_indicate_different_claim\<close> is true exactly when the number of
  entries of \<open>compute_differences\<close> whose field is one of \<open>policy_number\<close>,
  \<open>claimant_name\<close>, \<open>claim_amount\<close>, \<open>incident_date\<close> is at least
  \<open>min_differences\<close>; a call without the threshold is a call with threshold 2.
\<close>

theorem classifier_counts_critical_differences:
  "key_fields_indicate_different_claim all_keys new_fields existing_fields (Some min_differences) =
     (min_differences \<le> int (length (filter
        (\<lambda>d. field d \<in> {ustr ''policy_number'', ustr ''claimant_name'', ustr ''claim_amount'',
                         ustr ''incident_date''})
        (compute_differences all_keys new_fields existing_fields)))) \<and>
   key_fields_indicate_different_claim all_keys new_fields existing_fields None =
     key_fields_indicate_different_claim all_keys new_fields existing_fields (Some 2)"
  by (simp add: key_fields_indicate_different_claim_def CRITICAL_CLAIM_FIELDS_def Let_def)

text \<open>
  Claim C4.  For every order in which the union of the two key sets is iterated,
  \<open>compute_differences\<close> returns one entry for each key of the union whose two values
  differ and nothing else, no two entries for the same key; the entry holds the key, the
  old and the new value, \<^verbatim>\<open>None\<close> rendered as the em dash and a string as itself.
\<close>

theorem compute_differences_entries:
  assumes "iterates all_keys new_fields existing_fields"
  shows "distinct (map field (compute_differences all_keys new_fields existing_fields)) \<and>
         set (compute_differences all_keys new_fields existing_fields) =
           {\<lparr>field = k, old_value = render (dict_get existing_fields k),
              new_value = render (dict_get new_fields k)\<rparr> | k.
            k \<in> dom new_fields \<union> dom existing_fields \<and>
            dict_get new_fields k \<noteq> dict_get existing_fields k} \<and>
         render None = [0x2014] \<and> (\<forall>s. render (Some s) = s)"
proof -
  have d: "distinct all_keys" and s: "set all_keys = dom new_fields \<union> dom existing_fields"
    using assms by (simp_all add: iterates_def)
  have "distinct (map field (compute_differences all_keys new_fields existing_fields))"
    using d by (simp add: field_compute_differences)
  moreover have "set (compute_differences all_keys new_fields existing_fields) =
           {\<lparr>field = k, old_value = render (dict_get existing_fields k),
              new_value = render (dict_get new_fields k)\<rparr> | k.
            k \<in> dom new_fields \<union> dom existing_fields \<and>
            dict_get new_fields k \<noteq> dict_get existing_fields k}"
    unfolding compute_differences_eq s[symmetric] by auto
  ultimately show ?thesis by (simp add: render_def)
qed

theorem compute_differences_entries_witness:
  "iterates [ustr ''claim_amount''] [ustr ''claim_amount'' \<mapsto> Some (ustr ''100'')] Map.empty \<and>
   compute_differences [ustr ''claim_amount'']
       [ustr ''claim_amount'' \<mapsto> Some (ustr ''100'')] Map.empty =
     [\<lparr>field = ustr ''claim_amount'', old_value = [0x2014], new_value = ustr ''100''\<rparr>] \<and>
   set (compute_differences [ustr ''claim_amount'']
       [ustr ''claim_amount'' \<mapsto> Some (ustr ''100'')] Map.empty) =
     {\<lparr>field = k, old_value = render (dict_get Map.empty k),
        new_value = render (dict_get [ustr ''claim_amount'' \<mapsto> Some (ustr ''100'')] k)\<rparr> | k.
      k \<in> dom [ustr ''claim_amount'' \<mapsto> Some (ustr ''100'')] \<union> dom (Map.empty :: fields) \<and>
      dict_get [ustr ''claim_amount'' \<mapsto> Some (ustr ''100'')] k \<noteq> dict_get Map.empty k}"
proof -
  have h: "iterates [ustr ''claim_amount''] [ustr ''claim_amount'' \<mapsto> Some (ustr ''100'')] Map.empty"
    by (simp add: iterates_def)
  have e: "compute_differences [ustr ''claim_amount'']
       [ustr ''claim_amount'' \<mapsto> Some (ustr ''100'')] Map.empty =
     [\<lparr>field = ustr ''claim_amount'', old_value = [0x2014], new_value = ustr ''100''\<rparr>]"
    by (simp add: compute_differences_def dict_get_def render_def)
  from compute_differences_entries[OF h] h e show ?thesis by blast
qed

text \<open>
  Claim C7.  \<open>compute_differences a b\<close> and \<open>compute_differences b a\<close>, each under any
  iteration order of the union of the key sets, report the same set of fields, and the
  entries of the second are the entries of the first with \<open>old_value\<close> and
  \<open>new_value\<close> swapped.
\<close>

theorem compute_differences_swap:
  assumes "iterates ks a b" and "iterates ks' b a"
  shows "field ` set (compute_differences ks a b) = field ` set (compute_differences ks' b a) \<and>
         set (compute_differences ks' b a) =
           (\<lambda>d. \<lparr>field = field d, old_value = new_value d, new_value = old_value d\<rparr>) `
             set (compute_differences ks a b)"
proof -
  have s: "set ks' = set ks"
    using assms by (auto simp: iterates_def)
  have 2: "set (compute_differences ks' b a) =
           (\<lambda>d. \<lparr>field = field d, old_value = new_value d, new_value = old_value d\<rparr>) `
             set (compute_differences ks a b)"
    unfolding compute_differences_eq set_map set_filter s image_image by auto
  have "field ` set (compute_differences ks' b a) = field ` set (compute_differences ks a b)"
    unfolding 2 image_image by simp
  with 2 show ?thesis by simp
qed

theorem compute_differences_swap_witness:
  "iterates [ustr ''claim_amount'', ustr ''policy_number'']
     [ustr ''claim_amount'' \<mapsto> Some (ustr ''100''), ustr ''policy_number'' \<mapsto> None]
     [ustr ''claim_amount'' \<mapsto> Some (ustr ''250'')] \<and>
   iterates [ustr ''policy_number'', ustr ''claim_amount'']
     [ustr ''claim_amount'' \<mapsto> Some (ustr ''250'')]
     [ustr ''claim_amount'' \<mapsto> Some (ustr ''100''), ustr ''policy_number'' \<mapsto> None] \<and>
   compute_differences [ustr ''claim_amount'', ustr ''policy_number'']
     [ustr ''claim_amount'' \<mapsto> Some (ustr ''100''), ustr ''policy_number'' \<mapsto> None]
     [ustr ''claim_amount'' \<mapsto> Some (ustr ''250'')] =
     [\<lparr>field = ustr ''claim_amount'', old_value = ustr ''250'', new_value = ustr ''100''\<rparr>] \<and>
   set (compute_differences [ustr ''policy_number'', ustr ''claim_amount'']
     [ustr ''claim_amount'' \<mapsto> Some (ustr ''250'')]
     [ustr ''claim_amount'' \<mapsto> Some (ustr ''100''), ustr ''policy_number'' \<mapsto> None]) =
     (\<lambda>d. \<lparr>field = field d, old_value = new_value d, new_value = old_value d\<rparr>) `
       set (compute_differences [ustr ''claim_amount'', ustr ''policy_number'']
         [ustr ''claim_amount'' \<mapsto> Some (ustr ''100''), ustr ''policy_number'' \<mapsto> None]
         [ustr ''claim_amount'' \<mapsto> Some (ustr ''250'')])"
proof -
  have k: "ustr ''claim_amount'' \<noteq> ustr ''policy_number''"
    by (simp add: ustr_def)
  have h1: "iterates [ustr ''claim_amount'', ustr ''policy_number'']
     [ustr ''claim_amount'' \<mapsto> Some (ustr ''100''), ustr ''policy_number'' \<mapsto> None]
     [ustr ''claim_amount'' \<mapsto> Some (ustr ''250'')]"
    using k by (auto simp: iterates_def)
  have h2: "iterates [ustr ''policy_number'', ustr ''claim_amount'']
     [ustr ''claim_amount'' \<mapsto> Some (ustr ''250'')]
     [ustr ''claim_amount'' \<mapsto> Some (ustr ''100''), ustr ''policy_number'' \<mapsto> None]"
    using k by (auto simp: iterates_def)
  have e: "compute_differences [ustr ''claim_amount'', ustr ''policy_number'']
     [ustr ''claim_amount'' \<mapsto> Some (ustr ''100''), ustr ''policy_number'' \<mapsto> None]
     [ustr ''claim_amount'' \<mapsto> Some (ustr ''250'')] =
     [\<lparr>field = ustr ''claim_amount'', old_value = ustr ''250'', new_value = ustr ''100''\<rparr>]"
    using k by (simp add: compute_differences_def dict_get_def render_def ustr_def)
  from compute_differences_swap[OF h1 h2] h1 h2 e show ?thesis by blast
qed

text \<open>
  Claim C8.  Comparing a field record with itself gives the empty list, whatever the
  iteration order.
\<close>

theorem compute_differences_same: "compute_differences all_keys a a = []"
  by (simp add: compute_differences_eq)

text \<open>
  Claim C9.  With a threshold of zero or less \<open>key_fields_indicate_different_claim\<close>
  is true for every pair of records, also for two identical records, whose difference
  list is empty.
\<close>

theorem nonpositive_threshold_always_true:
  assumes "min_differences \<le> 0"
  shows "key_fields_indicate_different_claim all_keys new_fields existing_fields
           (Some min_differences) \<and>
         compute_differences all_keys a a = [] \<and>
         key_fields_indicate_different_claim all_keys a a (Some min_differences)"
  using assms
  by (simp add: key_fields_indicate_different_claim_def Let_def compute_differences_eq)

theorem nonpositive_threshold_always_true_witness:
  "(0::int) \<le> 0 \<and>
   key_fields_indicate_different_claim [ustr ''claim_amount'']
     [ustr ''claim_amount'' \<mapsto> Some (ustr ''100'')]
     [ustr ''claim_amount'' \<mapsto> Some (ustr ''100'')] (Some 0) \<and>
   compute_differences [ustr ''claim_amount'']
     [ustr ''claim_amount'' \<mapsto> Some (ustr ''100'')]
     [ustr ''claim_amount'' \<mapsto> Some (ustr ''100'')] = []"
proof -
  have h: "(0::int) \<le> 0" by simp
  from nonpositive_threshold_always_true[OF h] h show ?thesis by blast
qed

section \<open>The claims about \<open>extract_key_fields\<close>\<close>

text \<open>
  Claim C3.  The six amount patterns are tried in the order treatment cost, Rs, rupee
  sign, number with unit, claim amount, amount, each with \<^verbatim>\<open>re.IGNORECASE\<close>; the
  \<open>claim_amount\<close> of the result is the stripped group 1 of the first pattern of that
  list that matches somewhere in the text, and \<^verbatim>\<open>None\<close> when no pattern matches.
\<close>

theorem claim_amount_first_matching_pattern:
  "amount_patterns = [treatment_cost_pattern, rs_pattern, rupee_pattern, unit_pattern,
      claim_amount_pattern, amount_pattern] \<and>
   (\<exists>f. extract_key_fields text = Inr f \<and>
      (case List.find (\<lambda>p. re_search True p text \<noteq> None) amount_patterns of
         None \<Rightarrow> f (ustr ''claim_amount'') = Some None
       | Some p \<Rightarrow> \<exists>m g. re_search True p text = Some m \<and> match_group m 1 = Inr (Some g) \<and>
            f (ustr ''claim_amount'') = Some (Some (strip g))))"
proof -
  obtain f1 f2 f3 f4 where st:
    "amount_loop amount_patterns text initial_fields = Inr f1"
    "policy_step text f1 = Inr f2" "date_step text f2 = Inr f3"
    "name_step text f3 = Inr f4" "extract_key_fields text = Inr f4"
    using extract_steps by blast
  have "f2 (ustr ''claim_amount'') = f1 (ustr ''claim_amount'')"
    using policy_step_result[of "text" f1] st(2) by (auto simp: keys_distinct)
  moreover have "f3 (ustr ''claim_amount'') = f2 (ustr ''claim_amount'')"
    using date_step_result[of "text" f2] st(3) by (auto simp: keys_distinct)
  moreover have "f4 (ustr ''claim_amount'') = f3 (ustr ''claim_amount'')"
    using name_step_result[of "text" f3] st(4) by (auto simp: keys_distinct)
  ultimately have eq: "f4 (ustr ''claim_amount'') = f1 (ustr ''claim_amount'')" by simp
  have "case List.find (\<lambda>p. re_search True p text \<noteq> None) amount_patterns of
         None \<Rightarrow> f4 (ustr ''claim_amount'') = Some None
       | Some p \<Rightarrow> \<exists>m g. re_search True p text = Some m \<and> match_group m 1 = Inr (Some g) \<and>
            f4 (ustr ''claim_amount'') = Some (Some (strip g))"
    using amount_loop_find[OF amount_patterns_group1, of "text" initial_fields] st(1)
    unfolding eq by (auto split: option.splits simp: initial_fields_None)
  with st(5) show ?thesis by (auto simp: amount_patterns_def)
qed



text \<open>
  Claim C5.  \<open>extract_key_fields\<close> returns a record for every text, never an error, and
  a field none of whose patterns matches is \<^verbatim>\<open>None\<close>; \<open>compute_differences\<close> and
  \<open>key_fields_indicate_different_claim\<close> have no failing step and return a value for all
  records, iteration orders and thresholds.
\<close>

theorem functions_never_raise:
  "(\<exists>f. extract_key_fields text = Inr f \<and>
     ((\<forall>p \<in> set amount_patterns. re_search True p text = None) \<longrightarrow>
        f (ustr ''claim_amount'') = Some None) \<and>
     (re_search True policy_pattern text = None \<longrightarrow> f (ustr ''policy_number'') = Some None) \<and>
     (re_search True date_of_incident_pattern text = None \<and>
      re_search True date_keyword_pattern text = None \<and>
      re_search False bare_date_pattern text = None \<longrightarrow>
        f (ustr ''incident_date'') = Some None) \<and>
     (re_search True policy_holder_name_pattern text = None \<and>
      re_search True name_keyword_pattern text = None \<longrightarrow>
        f (ustr ''claimant_name'') = Some None)) \<and>
   (\<exists>diffs. compute_differences all_keys new_fields existing_fields = diffs) \<and>
   (\<exists>b. key_fields_indicate_different_claim all_keys new_fields existing_fields md = b)"
proof -
  from extract_fields[of "text"] obtain f where f: "extract_key_fields text = Inr f"
    and ca: "f (ustr ''claim_amount'') = Some None \<or>
        (\<exists>p \<in> set amount_patterns. re_search True p text \<noteq> None)"
    and pn: "f (ustr ''policy_number'') = Some None \<or> re_search True policy_pattern text \<noteq> None"
    and d: "f (ustr ''incident_date'') = Some None \<or>
        re_search True date_of_incident_pattern text \<noteq> None \<or>
        re_search True date_keyword_pattern text \<noteq> None \<or>
        re_search False bare_date_pattern text \<noteq> None"
    and cn: "f (ustr ''claimant_name'') = Some None \<or>
        (\<exists>m g. (re_search True policy_holder_name_pattern text = Some m \<or>
            re_search True name_keyword_pattern text = Some m) \<and>
          match_group m 1 = Inr (Some g) \<and> length g \<le> 50 \<and>
          f (ustr ''claimant_name'') = Some (Some (strip g)))"
    by auto
  have a1: "(\<forall>p \<in> set amount_patterns. re_search True p text = None) \<longrightarrow>
        f (ustr ''claim_amount'') = Some None" using ca by auto
  have a2: "re_search True policy_pattern text = None \<longrightarrow> f (ustr ''policy_number'') = Some None"
    using pn by auto
  have a3: "re_search True date_of_incident_pattern text = None \<and>
      re_search True date_keyword_pattern text = None \<and>
      re_search False bare_date_pattern text = None \<longrightarrow>
        f (ustr ''incident_date'') = Some None" using d by auto
  have a4: "re_search True policy_holder_name_pattern text = None \<and>
      re_search True name_keyword_pattern text = None \<longrightarrow>
        f (ustr ''claimant_name'') = Some None" using cn by auto
  have "\<exists>f. extract_key_fields text = Inr f \<and>
     ((\<forall>p \<in> set amount_patterns. re_search True p text = None) \<longrightarrow>
        f (ustr ''claim_amount'') = Some None) \<and>
     (re_search True policy_pattern text = None \<longrightarrow> f (ustr ''policy_number'') = Some None) \<and>
     (re_search True date_of_incident_pattern text = None \<and>
      re_search True date_keyword_pattern text = None \<and>
      re_search False bare_date_pattern text = None \<longrightarrow>
        f (ustr ''incident_date'') = Some None) \<and>
     (re_search True policy_holder_name_pattern text = None \<and>
      re_search True name_keyword_pattern text = None \<longrightarrow>
        f (ustr ''claimant_name'') = Some None)"
    apply (rule exI[of _ f])
    apply (intro conjI)
    apply (rule f)
    apply (rule a1)
    apply (rule a2)
    apply (rule a3)
    apply (rule a4)
    done
  then show ?thesis by simp
qed

theorem functions_never_raise_witness:
  "list_all (\<lambda>p. re_search True p (ustr ''hello world'') = None) amount_patterns \<and>
   re_search True policy_pattern (ustr ''hello world'') = None \<and>
   re_search True date_of_incident_pattern (ustr ''hello world'') = None \<and>
   re_search True date_keyword_pattern (ustr ''hello world'') = None \<and>
   re_search False bare_date_pattern (ustr ''hello world'') = None \<and>
   re_search True policy_holder_name_pattern (ustr ''hello world'') = None \<and>
   re_search True name_keyword_pattern (ustr ''hello world'') = None \<and>
   field_of (extract_key_fields (ustr ''hello world'')) (ustr ''claim_amount'') = Some None \<and>
   field_of (extract_key_fields (ustr ''hello world'')) (ustr ''policy_number'') = Some None \<and>
   field_of (extract_key_fields (ustr ''hello world'')) (ustr ''incident_date'') = Some None \<and>
   field_of (extract_key_fields (ustr ''hello world'')) (ustr ''claimant_name'') = Some None"
proof -
  have h0: "list_all (\<lambda>p. re_search True p (ustr ''hello world'') = None) amount_patterns"
    by code_simp
  then have h1: "\<forall>p \<in> set amount_patterns. re_search True p (ustr ''hello world'') = None"
    by (simp add: list_all_iff)
  have h2: "re_search True policy_pattern (ustr ''hello world'') = None"
    by code_simp
  have h3: "re_search True date_of_incident_pattern (ustr ''hello world'') = None"
    "re_search True date_keyword_pattern (ustr ''hello world'') = None"
    "re_search False bare_date_pattern (ustr ''hello world'') = None"
    by code_simp+
  have h4: "re_search True policy_holder_name_pattern (ustr ''hello world'') = None"
    "re_search True name_keyword_pattern (ustr ''hello world'') = None"
    by code_simp+
  note t = functions_never_raise[of "ustr ''hello world''", THEN conjunct1]
  from t h0 h1 h2 h3 h4 show ?thesis by (auto simp: field_of_def)
qed

text \<open>
  Claim C6.  For every text the record returned by \<open>extract_key_fields\<close> has exactly the
  keys \<open>claim_amount\<close>, \<open>claimant_name\<close>, \<open>incident_date\<close> and \<open>policy_number\<close>, and
  every value is \<^verbatim>\<open>None\<close> or a string.
\<close>

theorem extract_key_fields_four_keys:
  "\<exists>f. extract_key_fields text = Inr f \<and>
     dom f = {ustr ''claim_amount'', ustr ''claimant_name'', ustr ''incident_date'',
              ustr ''policy_number''} \<and>
     (\<forall>k. f k = None \<or> f k = Some None \<or> (\<exists>s. f k = Some (Some s)))"
proof -
  from extract_fields[of "text"] obtain f where f:
    "extract_key_fields text = Inr f"
    "dom f = {ustr ''claim_amount'', ustr ''claimant_name'', ustr ''incident_date'',
              ustr ''policy_number''}" by auto
  have "\<forall>k. f k = None \<or> f k = Some None \<or> (\<exists>s. f k = Some (Some s))"
    by (metis option.exhaust)
  with f show ?thesis by auto
qed

text \<open>
  Claim C10.  A claimant name that is not \<^verbatim>\<open>None\<close> is the stripped group 1 of one of
  the two name patterns; the group has at most 50 characters, so the name has at most 50
  and cutting it to 80 changes nothing.  The name can be the empty string: for the text
  \<open>name:\<close> followed by four spaces the group is two spaces.
\<close>

theorem claimant_name_at_most_50:
  "(\<exists>f. extract_key_fields text = Inr f \<and>
      (f (ustr ''claimant_name'') = Some None \<or>
       (\<exists>m g. (re_search True policy_holder_name_pattern text = Some m \<or>
                re_search True name_keyword_pattern text = Some m) \<and>
          match_group m 1 = Inr (Some g) \<and> length g \<le> 50 \<and>
          f (ustr ''claimant_name'') = Some (Some (strip g)) \<and>
          length (strip g) \<le> 50 \<and> take 80 (strip g) = strip g))) \<and>
   field_of (extract_key_fields (ustr ''name:    '')) (ustr ''claimant_name'') = Some (Some [])"
proof -
  from extract_fields[of "text"] obtain f where f: "extract_key_fields text = Inr f"
    and cn: "f (ustr ''claimant_name'') = Some None \<or>
        (\<exists>m g. (re_search True policy_holder_name_pattern text = Some m \<or>
            re_search True name_keyword_pattern text = Some m) \<and>
          match_group m 1 = Inr (Some g) \<and> length g \<le> 50 \<and>
          f (ustr ''claimant_name'') = Some (Some (strip g)))"
    by auto
  have l: "length g \<le> 50 \<Longrightarrow> length (strip g) \<le> 50 \<and> take 80 (strip g) = strip g" for g
    using length_strip[of g] by simp
  have "f (ustr ''claimant_name'') = Some None \<or>
       (\<exists>m g. (re_search True policy_holder_name_pattern text = Some m \<or>
                re_search True name_keyword_pattern text = Some m) \<and>
          match_group m 1 = Inr (Some g) \<and> length g \<le> 50 \<and>
          f (ustr ''claimant_name'') = Some (Some (strip g)) \<and>
          length (strip g) \<le> 50 \<and> take 80 (strip g) = strip g)"
  proof (rule disjE[OF cn])
    assume "f (ustr ''claimant_name'') = Some None"
    then show ?thesis by simp
  next
    assume "\<exists>m g. (re_search True policy_holder_name_pattern text = Some m \<or>
            re_search True name_keyword_pattern text = Some m) \<and>
          match_group m 1 = Inr (Some g) \<and> length g \<le> 50 \<and>
          f (ustr ''claimant_name'') = Some (Some (strip g))"
    then obtain m g where mg: "re_search True policy_holder_name_pattern text = Some m \<or>
            re_search True name_keyword_pattern text = Some m"
        "match_group m 1 = Inr (Some g)" "length g \<le> 50"
        "f (ustr ''claimant_name'') = Some (Some (strip g))" by auto
    from l[OF mg(3)] mg show ?thesis by auto
  qed
  moreover have "field_of (extract_key_fields (ustr ''name:    '')) (ustr ''claimant_name'') = Some (Some [])"
    by code_simp
  ultimately show ?thesis using f by auto
qed

end
